theory Spec2Isabelle
  imports Main "HOL-Library.Word"
begin

section \<open>Strings\<close>

text \<open>
  A JavaScript string is a sequence of UTF-16 code units; \<open>===\<close> on two strings is
  equality of these sequences. \<open>js\<close> writes an ASCII literal as such a sequence.
\<close>

type_synonym jsstring = "16 word list"

definition js :: "string \<Rightarrow> jsstring" where
  "js s = map (\<lambda>c. of_nat (of_char c)) s"

definition NL :: "16 word" where
  "NL = 0x0A"

text \<open>
  The class \<open>\s\<close> of a JavaScript regular expression: the WhiteSpace and the
  LineTerminator code points of ECMAScript.
\<close>

definition isWhitespace :: "16 word \<Rightarrow> bool" where
  "isWhitespace c =
     (c = 0x09 \<or> c = 0x0A \<or> c = 0x0B \<or> c = 0x0C \<or> c = 0x0D \<or> c = 0x20 \<or> c = 0xA0 \<or>
      c = 0x1680 \<or> (0x2000 \<le> c \<and> c \<le> 0x200A) \<or> c = 0x2028 \<or> c = 0x2029 \<or>
      c = 0x202F \<or> c = 0x205F \<or> c = 0x3000 \<or> c = 0xFEFF)"

text \<open>
  \<open>text.split('\n')\<close>: the pieces between the newlines, \<open>cur\<close> being the piece read so
  far. The empty string gives one empty piece.
\<close>

fun splitOn :: "16 word \<Rightarrow> jsstring \<Rightarrow> jsstring \<Rightarrow> jsstring list" where
  "splitOn sep cur [] = [cur]"
| "splitOn sep cur (c # cs) =
     (if c = sep then cur # splitOn sep [] cs else splitOn sep (cur @ [c]) cs)"

definition splitLines :: "jsstring \<Rightarrow> jsstring list" where
  "splitLines s = splitOn NL [] s"

text \<open>
  \<open>line.split(/(\s+)/)\<close>: the separator is a maximal run of whitespace, and the
  capturing group puts every run into the result, between the pieces it separates.
\<close>

function splitWs :: "jsstring \<Rightarrow> jsstring \<Rightarrow> jsstring list" where
  "splitWs cur [] = [cur]"
| "splitWs cur (c # cs) =
     (if isWhitespace c
      then cur # takeWhile isWhitespace (c # cs) # splitWs [] (dropWhile isWhitespace (c # cs))
      else splitWs (cur @ [c]) cs)"
  by pat_completeness auto
termination
  by (relation "measure (\<lambda>(cur, s). length s)")
     (auto simp: length_dropWhile_le le_imp_less_Suc)

definition splitWords :: "jsstring \<Rightarrow> jsstring list" where
  "splitWords s = splitWs [] s"

text \<open>\<open>xs[i]\<close> on an array: \<open>undefined\<close> (here \<open>None\<close>) past the end.\<close>

definition at :: "'a list \<Rightarrow> nat \<Rightarrow> 'a option" where
  "at xs i = (if i < length xs then Some (xs ! i) else None)"

section \<open>Text diff\<close>

datatype diff_type = TEmpty | TAdded | TRemoved | TSame | TChanged

datatype word_rec = WordRec (w_text: jsstring) (w_type: diff_type)

datatype line_rec =
  LineRec (l_text: jsstring) (l_type: diff_type) (l_wordDiff: "word_rec list option")

text \<open>
  The loop of \<open>computeWordDiff\<close>, from index \<open>i\<close>, with the two arrays built so far. The
  branches are tried in the order of the source. Below \<open>maxLen\<close> at least one side has an
  element, so the branch where both reads are \<open>undefined\<close> is never taken by
  \<open>computeWordDiff\<close>; it only makes the function total.
\<close>

function wordLoop ::
  "jsstring list \<Rightarrow> jsstring list \<Rightarrow> nat \<Rightarrow> nat \<Rightarrow> word_rec list \<Rightarrow> word_rec list
   \<Rightarrow> word_rec list \<times> word_rec list" where
  "wordLoop wordsA wordsB maxLen i diffA diffB =
     (if i < maxLen then
        (case at wordsA i of
           None \<Rightarrow>
             (case at wordsB i of
                None \<Rightarrow> wordLoop wordsA wordsB maxLen (Suc i) diffA diffB
              | Some wordB \<Rightarrow>
                  wordLoop wordsA wordsB maxLen (Suc i) diffA (diffB @ [WordRec wordB TAdded]))
         | Some wordA \<Rightarrow>
             (case at wordsB i of
                None \<Rightarrow>
                  wordLoop wordsA wordsB maxLen (Suc i) (diffA @ [WordRec wordA TRemoved]) diffB
              | Some wordB \<Rightarrow>
                  if wordA = wordB
                  then wordLoop wordsA wordsB maxLen (Suc i)
                         (diffA @ [WordRec wordA TSame]) (diffB @ [WordRec wordB TSame])
                  else wordLoop wordsA wordsB maxLen (Suc i)
                         (diffA @ [WordRec wordA TRemoved]) (diffB @ [WordRec wordB TAdded])))
      else (diffA, diffB))"
  by pat_completeness auto
termination
  by (relation "measure (\<lambda>(wordsA, wordsB, maxLen, i, diffA, diffB). maxLen - i)") auto

declare wordLoop.simps [simp del]

definition computeWordDiff :: "jsstring \<Rightarrow> jsstring \<Rightarrow> word_rec list \<times> word_rec list" where
  "computeWordDiff lineA lineB =
     (let wordsA = splitWords lineA;
          wordsB = splitWords lineB;
          maxLen = max (length wordsA) (length wordsB)
      in wordLoop wordsA wordsB maxLen 0 [] [])"

text \<open>The loop of \<open>computeLineDiff\<close>.\<close>

function lineLoop ::
  "jsstring list \<Rightarrow> jsstring list \<Rightarrow> nat \<Rightarrow> nat \<Rightarrow> line_rec list \<Rightarrow> line_rec list
   \<Rightarrow> line_rec list \<times> line_rec list" where
  "lineLoop linesA linesB maxLen i resultA resultB =
     (if i < maxLen then
        (case at linesA i of
           None \<Rightarrow>
             (case at linesB i of
                None \<Rightarrow> lineLoop linesA linesB maxLen (Suc i) resultA resultB
              | Some lineB \<Rightarrow>
                  lineLoop linesA linesB maxLen (Suc i)
                    (resultA @ [LineRec [] TEmpty None]) (resultB @ [LineRec lineB TAdded None]))
         | Some lineA \<Rightarrow>
             (case at linesB i of
                None \<Rightarrow>
                  lineLoop linesA linesB maxLen (Suc i)
                    (resultA @ [LineRec lineA TRemoved None]) (resultB @ [LineRec [] TEmpty None])
              | Some lineB \<Rightarrow>
                  if lineA = lineB
                  then lineLoop linesA linesB maxLen (Suc i)
                         (resultA @ [LineRec lineA TSame None])
                         (resultB @ [LineRec lineB TSame None])
                  else lineLoop linesA linesB maxLen (Suc i)
                         (resultA @ [LineRec lineA TChanged (Some (fst (computeWordDiff lineA lineB)))])
                         (resultB @ [LineRec lineB TChanged (Some (snd (computeWordDiff lineA lineB)))])))
      else (resultA, resultB))"
  by pat_completeness auto
termination
  by (relation "measure (\<lambda>(linesA, linesB, maxLen, i, resultA, resultB). maxLen - i)") auto

declare lineLoop.simps [simp del]

definition computeLineDiff :: "jsstring \<Rightarrow> jsstring \<Rightarrow> line_rec list \<times> line_rec list" where
  "computeLineDiff textA textB =
     (let linesA = splitLines textA;
          linesB = splitLines textB;
          maxLen = max (length linesA) (length linesB)
      in lineLoop linesA linesB maxLen 0 [] [])"

section \<open>Snapshots\<close>

record prompt =
  p_identifier :: jsstring
  p_name :: jsstring
  p_content :: "jsstring option"
  p_role :: "jsstring option"
  p_marker :: bool
  p_system_prompt :: bool

text \<open>One element \<open>{identifier, enabled}\<close> of an order list.\<close>

record order_item =
  e_identifier :: jsstring
  e_enabled :: bool

text \<open>An entry of \<open>promptOrder\<close>; the source reads its list as \<open>o.order?\<close>.\<close>

record order_entry =
  o_order :: "order_item list option"

record snapshot =
  prompts :: "prompt list"
  promptOrder :: "order_entry list"
  presetName :: jsstring
  enabledCount :: nat
  timestamp :: nat
  name :: jsstring

section \<open>Structural diff\<close>

text \<open>
  A JavaScript \<open>Map\<close> keeps its keys in the order of their first insertion; setting a
  key that is present replaces the value in place.
\<close>

type_synonym 'v jsmap = "(jsstring \<times> 'v) list"

fun mapSet :: "jsstring \<Rightarrow> 'v \<Rightarrow> 'v jsmap \<Rightarrow> 'v jsmap" where
  "mapSet k v [] = [(k, v)]"
| "mapSet k v ((k', v') # m) = (if k' = k then (k, v) # m else (k', v') # mapSet k v m)"

definition newMap :: "(jsstring \<times> 'v) list \<Rightarrow> 'v jsmap" where
  "newMap entries = foldl (\<lambda>m (k, v). mapSet k v m) [] entries"

definition mapGet :: "'v jsmap \<Rightarrow> jsstring \<Rightarrow> 'v option" where
  "mapGet m k = map_of m k"

definition mapHas :: "'v jsmap \<Rightarrow> jsstring \<Rightarrow> bool" where
  "mapHas m k = (map_of m k \<noteq> None)"

text \<open>\<open>new Map(state.prompts.map(p => [p.identifier, p]))\<close>\<close>

definition promptMap :: "snapshot \<Rightarrow> prompt jsmap" where
  "promptMap state = newMap (map (\<lambda>p. (p_identifier p, p)) (prompts state))"

datatype change =
  is_Removed: Removed (c_identifier: jsstring) (c_name: jsstring)
| is_Added: Added (c_identifier: jsstring) (c_name: jsstring)
| is_ContentChanged: ContentChanged (c_identifier: jsstring) (c_name: jsstring)
    (contentA: "jsstring option") (contentB: "jsstring option")
| is_EnabledChanged: EnabledChanged (c_identifier: jsstring) (c_name: jsstring)
    (enabledA: "bool option") (enabledB: "bool option")

text \<open>\<open>promptOrder.find(o => o.order?.some(e => e.identifier === id))\<close>\<close>

definition findOrder :: "order_entry list \<Rightarrow> jsstring \<Rightarrow> order_entry option" where
  "findOrder os ident =
     List.find (\<lambda>entry. case o_order entry of None \<Rightarrow> False
                       | Some es \<Rightarrow> list_ex (\<lambda>e. e_identifier e = ident) es) os"

text \<open>\<open>order?.order?.find(e => e.identifier === id)?.enabled\<close>, \<open>None\<close> for \<open>undefined\<close>.\<close>

definition enabledOf :: "order_entry option \<Rightarrow> jsstring \<Rightarrow> bool option" where
  "enabledOf ord ident =
     (case ord of None \<Rightarrow> None
      | Some entry \<Rightarrow>
          (case o_order entry of None \<Rightarrow> None
           | Some es \<Rightarrow>
               (case List.find (\<lambda>e. e_identifier e = ident) es of None \<Rightarrow> None
                | Some e \<Rightarrow> Some (e_enabled e))))"

text \<open>The first loop of \<open>getPromptDifferences\<close>, over the entries of \<open>promptsA\<close>.\<close>

fun compareLoop ::
  "snapshot \<Rightarrow> snapshot \<Rightarrow> prompt jsmap \<Rightarrow> (jsstring \<times> prompt) list \<Rightarrow> change list
   \<Rightarrow> change list" where
  "compareLoop stateA stateB promptsB [] differences = differences"
| "compareLoop stateA stateB promptsB ((ident, promptA) # rest) differences =
     (case mapGet promptsB ident of
        None \<Rightarrow>
          compareLoop stateA stateB promptsB rest
            (differences @ [Removed ident (p_name promptA)])
      | Some promptB \<Rightarrow>
          (let differences1 =
                 (if p_content promptA \<noteq> p_content promptB
                  then differences @
                       [ContentChanged ident (p_name promptA) (p_content promptA) (p_content promptB)]
                  else differences);
               orderA = findOrder (promptOrder stateA) ident;
               orderB = findOrder (promptOrder stateB) ident;
               enabledA = enabledOf orderA ident;
               enabledB = enabledOf orderB ident;
               differences2 =
                 (if enabledA \<noteq> enabledB
                  then differences1 @ [EnabledChanged ident (p_name promptA) enabledA enabledB]
                  else differences1)
           in compareLoop stateA stateB promptsB rest differences2))"

text \<open>The second loop, over the entries of \<open>promptsB\<close>.\<close>

fun addedLoop :: "prompt jsmap \<Rightarrow> (jsstring \<times> prompt) list \<Rightarrow> change list \<Rightarrow> change list" where
  "addedLoop promptsA [] differences = differences"
| "addedLoop promptsA ((ident, promptB) # rest) differences =
     (if \<not> mapHas promptsA ident
      then addedLoop promptsA rest (differences @ [Added ident (p_name promptB)])
      else addedLoop promptsA rest differences)"

text \<open>An absent (\<open>null\<close>) snapshot is \<open>None\<close>.\<close>

definition getPromptDifferences :: "snapshot option \<Rightarrow> snapshot option \<Rightarrow> change list" where
  "getPromptDifferences stateA stateB =
     (case stateA of None \<Rightarrow> []
      | Some a \<Rightarrow>
          (case stateB of None \<Rightarrow> []
           | Some b \<Rightarrow>
               (let promptsA = promptMap a;
                    promptsB = promptMap b;
                    differences = compareLoop a b promptsB promptsA []
                in addedLoop promptsA promptsB differences)))"

text \<open>
  \<open>renderDifferences\<close> up to its markup: the banner "No differences found" for an array
  of length 0, and otherwise one item per record.
\<close>

datatype rendering = NoDifferencesFound | DiffItems "change list"

definition renderDifferences :: "change list \<Rightarrow> rendering" where
  "renderDifferences differences =
     (if length differences = 0 then NoDifferencesFound else DiffItems differences)"

section \<open>The live session and its collaborators\<close>

text \<open>
  The live configuration is \<open>promptManager.serviceSettings\<close>, with the two fields that
  capture and apply touch; it is \<open>None\<close> while the prompt manager or its settings are
  missing. The transcript is \<open>context.chat\<close>.
\<close>

record settings =
  ss_prompts :: "prompt list"
  ss_prompt_order :: "order_entry list"

record message =
  m_name :: jsstring
  m_is_user :: bool
  m_mes :: jsstring
  m_send_date :: nat

record live =
  serviceSettings :: "settings option"
  chat :: "message list"

text \<open>
  A thrown value, or the reason of a rejected promise. Reading \<open>.message\<close> of an object
  or primitive gives its message, or \<open>undefined\<close> (\<open>None\<close>); a thrown \<open>null\<close> or
  \<open>undefined\<close> has no properties to read.
\<close>

datatype js_exn = Thrown (message: "jsstring option") | ThrownNullish

datatype 'a completion = Returned 'a | Raised js_exn

text \<open>
  One call of \<open>context.generate\<close>: the texts passed to the callback, in order, the
  configuration and the transcript the call leaves behind, and how the promise settles
  (rejected with a reason, or fulfilled with a text or with nothing).
\<close>

record generation =
  g_partials :: "jsstring list"
  g_settings :: settings
  g_chat :: "message list"
  g_result :: "js_exn + jsstring option"

text \<open>
  What the host provides. \<open>render\<close> is \<open>promptManager.render(false)\<close>: it redraws the
  user interface for the configuration it finds and may throw. \<open>generate\<close> may change
  both parts of the live session. The prompt manager does not appear or disappear
  during a call, and calls do not overlap.
\<close>

record host =
  preset_settings_openai :: "jsstring option"
  dateNow :: nat
  localeString :: jsstring
  name1 :: jsstring
  render :: "settings \<Rightarrow> js_exn option"
  generate :: "live \<Rightarrow> generation"

text \<open>\<open>String.prototype.trim\<close>\<close>

definition trim :: "jsstring \<Rightarrow> jsstring" where
  "trim s = rev (dropWhile isWhitespace (rev (dropWhile isWhitespace s)))"

definition captureCurrentPromptState :: "host \<Rightarrow> live \<Rightarrow> snapshot option" where
  "captureCurrentPromptState h l =
     (case serviceSettings l of
        None \<Rightarrow> None
      | Some ss \<Rightarrow>
          (let prompts' = ss_prompts ss;
               promptOrder' = ss_prompt_order ss;
               presetName' =
                 (case preset_settings_openai h of
                    None \<Rightarrow> js ''Unknown Preset''
                  | Some n \<Rightarrow> if n = [] then js ''Unknown Preset'' else n);
               enabledCount' =
                 foldl (\<lambda>count entry.
                     count +
                     (case o_order entry of
                        None \<Rightarrow> 0
                      | Some es \<Rightarrow>
                          length (filter (\<lambda>e. e_enabled e \<and>
                              \<not> (case List.find (\<lambda>p. p_identifier p = e_identifier e) prompts' of
                                    None \<Rightarrow> False
                                  | Some p \<Rightarrow> p_marker p)) es)))
                   0 promptOrder'
           in Some \<lparr>prompts = prompts', promptOrder = promptOrder',
                     presetName = presetName', enabledCount = enabledCount',
                     timestamp = dateNow h,
                     name = js ''['' @ presetName' @ js ''] '' @ localeString h\<rparr>))"

text \<open>
  \<open>applyPromptState\<close>: the new live session, and \<open>true\<close>, \<open>false\<close> or what \<open>render\<close>
  threw. The two fields are assigned before \<open>render\<close> is called.
\<close>

definition applyPromptState :: "host \<Rightarrow> snapshot option \<Rightarrow> live \<Rightarrow> live \<times> bool completion" where
  "applyPromptState h state l =
     (case serviceSettings l of
        None \<Rightarrow> (l, Returned False)
      | Some ss \<Rightarrow>
          (case state of
             None \<Rightarrow> (l, Returned False)
           | Some s \<Rightarrow>
               (let ss' = ss\<lparr>ss_prompts := prompts s, ss_prompt_order := promptOrder s\<rparr>;
                    l' = l\<lparr>serviceSettings := Some ss'\<rparr>
                in case render h ss' of
                     Some e \<Rightarrow> (l', Raised e)
                   | None \<Rightarrow> (l', Returned True))))"

text \<open>
  The \<open>try\<close> block of \<open>generateWithState\<close>: the live session it leaves, the text of the
  streaming element it puts into the sink (\<open>None\<close> when it fails before creating it), and
  its completion. The callback stores and shows each partial text; a result that is not
  empty supersedes the last of them.
\<close>

definition tryBlock ::
  "host \<Rightarrow> snapshot option \<Rightarrow> jsstring option \<Rightarrow> live
   \<Rightarrow> live \<times> jsstring option \<times> jsstring completion" where
  "tryBlock h state testMessage l =
     (case applyPromptState h state l of
        (l1, Raised e) \<Rightarrow> (l1, None, Raised e)
      | (l1, Returned applied) \<Rightarrow>
          (let l2 =
                 (case testMessage of
                    None \<Rightarrow> l1
                  | Some t \<Rightarrow>
                      if trim t \<noteq> []
                      then l1\<lparr>chat := chat l1 @
                             [\<lparr>m_name = name1 h, m_is_user = True, m_mes = trim t,
                               m_send_date = dateNow h\<rparr>]\<rparr>
                      else l1);
               g = generate h l2;
               l3 = \<lparr>serviceSettings = map_option (\<lambda>ss. g_settings g) (serviceSettings l2),
                     chat = g_chat g\<rparr>;
               fullText = (if g_partials g = [] then [] else last (g_partials g))
           in case g_result g of
                Inl e \<Rightarrow> (l3, Some fullText, Raised e)
              | Inr result \<Rightarrow>
                  (let fullText' =
                         (case result of
                            None \<Rightarrow> fullText
                          | Some r \<Rightarrow> if r = [] then fullText else r)
                   in (l3, Some fullText', Returned fullText'))))"

text \<open>
  The \<open>catch\<close> block: the template \<open>`Error: ${error.message}`\<close>. Reading \<open>message\<close> of
  \<open>null\<close> or \<open>undefined\<close> throws a TypeError, whose own message is the engine's.
\<close>

definition messageText :: "js_exn \<Rightarrow> jsstring" where
  "messageText e = (case message e of None \<Rightarrow> js ''undefined'' | Some m \<Rightarrow> m)"

definition typeErrorReadingMessage :: js_exn where
  "typeErrorReadingMessage = Thrown (Some (js ''Cannot read properties of undefined''))"

definition catchBlock :: "js_exn \<Rightarrow> jsstring completion" where
  "catchBlock e =
     (case e of
        ThrownNullish \<Rightarrow> Raised typeErrorReadingMessage
      | Thrown m \<Rightarrow> Returned (js ''Error: '' @ messageText e))"

text \<open>
  \<open>generateWithState\<close>: \<open>try\<close>, \<open>catch\<close>, then the \<open>finally\<close> block, whose exception, if
  any, replaces the completion of the blocks before it.
\<close>

definition generateWithState ::
  "host \<Rightarrow> snapshot option \<Rightarrow> jsstring option \<Rightarrow> live
   \<Rightarrow> live \<times> jsstring option \<times> jsstring completion" where
  "generateWithState h state testMessage l =
     (let originalState = captureCurrentPromptState h l;
          originalChat = chat l
      in case tryBlock h state testMessage l of
           (l1, shown, body) \<Rightarrow>
             (let caught = (case body of Returned t \<Rightarrow> Returned t | Raised e \<Rightarrow> catchBlock e);
                  l2 = l1\<lparr>chat := originalChat\<rparr>
              in case originalState of
                   None \<Rightarrow> (l2, shown, caught)
                 | Some s \<Rightarrow>
                     (case applyPromptState h (Some s) l2 of
                        (l3, Raised e) \<Rightarrow> (l3, shown, Raised e)
                      | (l3, Returned applied) \<Rightarrow> (l3, shown, caught))))"

section \<open>Reference descriptions\<close>

text \<open>
  The records that the comparison of one identifier of A contributes, as the
  specification words it: \<open>Removed\<close> when B lacks the identifier; otherwise
  \<open>ContentChanged\<close> when the contents differ and, independently, \<open>EnabledChanged\<close> when the
  resolved enabled flags differ.
\<close>

definition changesFor :: "snapshot \<Rightarrow> snapshot \<Rightarrow> jsstring \<Rightarrow> prompt \<Rightarrow> change list" where
  "changesFor stateA stateB ident promptA =
     (case mapGet (promptMap stateB) ident of
        None \<Rightarrow> [Removed ident (p_name promptA)]
      | Some promptB \<Rightarrow>
          (if p_content promptA \<noteq> p_content promptB
           then [ContentChanged ident (p_name promptA) (p_content promptA) (p_content promptB)]
           else []) @
          (if enabledOf (findOrder (promptOrder stateA) ident) ident \<noteq>
              enabledOf (findOrder (promptOrder stateB) ident) ident
           then [EnabledChanged ident (p_name promptA)
                   (enabledOf (findOrder (promptOrder stateA) ident) ident)
                   (enabledOf (findOrder (promptOrder stateB) ident) ident)]
           else []))"

text \<open>
  A whitespace-preserving split: pieces without whitespace alternate with non-empty runs
  of whitespace, and the sequence begins and ends with a piece.
\<close>

fun tokensAlternate :: "jsstring list \<Rightarrow> bool" where
  "tokensAlternate [] = False"
| "tokensAlternate [w] = list_all (\<lambda>c. \<not> isWhitespace c) w"
| "tokensAlternate (w # r # rest) =
     (list_all (\<lambda>c. \<not> isWhitespace c) w \<and> r \<noteq> [] \<and> list_all isWhitespace r \<and>
      tokensAlternate rest)"

text \<open>
  The resolved enabled flag of an identifier, as the specification words it: scan
  \<open>promptOrder\<close> for the first entry whose order list contains the identifier and take
  the enabled value it has there; \<open>None\<close> (\<open>undefined\<close>) when no order list contains it.
\<close>

fun firstListWith :: "jsstring \<Rightarrow> order_entry list \<Rightarrow> order_item list option" where
  "firstListWith k [] = None"
| "firstListWith k (entry # rest) =
     (case o_order entry of
        None \<Rightarrow> firstListWith k rest
      | Some es \<Rightarrow> if k \<in> set (map e_identifier es) then Some es else firstListWith k rest)"

definition resolvedEnabled :: "snapshot \<Rightarrow> jsstring \<Rightarrow> bool option" where
  "resolvedEnabled s k =
     (case firstListWith k (promptOrder s) of
        None \<Rightarrow> None
      | Some es \<Rightarrow> map_option e_enabled (List.find (\<lambda>e. e_identifier e = k) es))"

section \<open>Sample inputs\<close>

definition samplePrompt :: "string \<Rightarrow> string \<Rightarrow> string \<Rightarrow> prompt" where
  "samplePrompt i n c = \<lparr>p_identifier = js i, p_name = js n, p_content = Some (js c),
     p_role = None, p_marker = False, p_system_prompt = False\<rparr>"

definition sampleOrder :: "(string \<times> bool) list \<Rightarrow> order_entry" where
  "sampleOrder es =
     \<lparr>o_order = Some (map (\<lambda>(i, b). \<lparr>e_identifier = js i, e_enabled = b\<rparr>) es)\<rparr>"

definition sampleA :: snapshot where
  "sampleA =
     \<lparr>prompts = [samplePrompt ''p1'' ''Main'' ''Hello'', samplePrompt ''p2'' ''Old'' ''x'',
                 samplePrompt ''p3'' ''Same'' ''y''],
      promptOrder = [sampleOrder [(''p1'', True), (''p3'', True)]],
      presetName = js ''A'', enabledCount = 2, timestamp = 1, name = js ''A''\<rparr>"

definition sampleB :: snapshot where
  "sampleB =
     \<lparr>prompts = [samplePrompt ''p1'' ''Main2'' ''Hi'', samplePrompt ''p3'' ''Same'' ''y'',
                 samplePrompt ''p4'' ''New'' ''z''],
      promptOrder = [sampleOrder [(''p1'', False), (''p3'', True)]],
      presetName = js ''B'', enabledCount = 1, timestamp = 2, name = js ''B''\<rparr>"

definition textA3 :: jsstring where
  "textA3 = js ''a'' @ [NL] @ js ''b'' @ [NL] @ js ''q''"

definition textB2 :: jsstring where
  "textB2 = js ''a'' @ [NL] @ js ''c''"

definition sampleSettings :: settings where
  "sampleSettings = \<lparr>ss_prompts = prompts sampleA, ss_prompt_order = promptOrder sampleA\<rparr>"

definition sampleMessage :: message where
  "sampleMessage = \<lparr>m_name = js ''User'', m_is_user = True, m_mes = js ''hello'',
     m_send_date = 5\<rparr>"

definition sampleSession :: live where
  "sampleSession = \<lparr>serviceSettings = Some sampleSettings, chat = [sampleMessage]\<rparr>"

text \<open>
  A host whose generation empties the configuration it finds, appends a reply to the
  transcript, reports two partial texts and settles as given.
\<close>

definition sampleHost :: "(settings \<Rightarrow> js_exn option) \<Rightarrow> (js_exn + jsstring option) \<Rightarrow> host" where
  "sampleHost r res =
     \<lparr>preset_settings_openai = Some (js ''Default''), dateNow = 7, localeString = js ''now'',
      name1 = js ''User'', render = r,
      generate = (\<lambda>l. \<lparr>g_partials = [js ''He'', js ''Hello''],
                          g_settings = \<lparr>ss_prompts = [], ss_prompt_order = []\<rparr>,
                          g_chat = chat l @ [sampleMessage\<lparr>m_is_user := False\<rparr>],
                          g_result = res\<rparr>)\<rparr>"

definition renderOk :: "settings \<Rightarrow> js_exn option" where
  "renderOk ss = None"

definition renderFails :: "settings \<Rightarrow> js_exn option" where
  "renderFails ss = Some (Thrown (Some (js ''render failed'')))"

section \<open>Properties of the text diff\<close>

subsection \<open>Splitting\<close>

lemma splitOn_length: "length (splitOn sep cur s) = Suc (count_list s sep)"
  by (induction s arbitrary: cur) auto

lemma splitOn_snoc: "splitOn sep cur (s @ [sep]) = splitOn sep cur s @ [[]]"
  by (induction s arbitrary: cur) auto

lemma splitOn_join: "concat (map (\<lambda>line. line @ [sep]) (splitOn sep cur s)) = cur @ s @ [sep]"
  by (induction s arbitrary: cur) auto

lemma splitOn_no_sep:
  "sep \<notin> set cur \<Longrightarrow> \<forall>line\<in>set (splitOn sep cur s). sep \<notin> set line"
proof (induction s arbitrary: cur)
  case Nil
  then show ?case by simp
next
  case (Cons c s)
  show ?case
  proof (cases "c = sep")
    case True
    have "\<forall>line\<in>set (splitOn sep [] s). sep \<notin> set line"
      using Cons.IH [of "[]"] by simp
    then show ?thesis using True Cons.prems by simp
  next
    case False
    have "sep \<notin> set (cur @ [c])" using False Cons.prems by auto
    then have "\<forall>line\<in>set (splitOn sep (cur @ [c]) s). sep \<notin> set line"
      by (rule Cons.IH)
    then show ?thesis using False by simp
  qed
qed

lemma splitWs_concat: "concat (splitWs cur s) = cur @ s"
  by (induction cur s rule: splitWs.induct) (auto simp del: takeWhile.simps dropWhile.simps)

lemma splitWs_alternate:
  "list_all (\<lambda>c. \<not> isWhitespace c) cur \<Longrightarrow> tokensAlternate (splitWs cur s)"
proof (induction cur s rule: splitWs.induct)
  case (1 cur)
  then show ?case by simp
next
  case (2 cur c cs)
  show ?case
  proof (cases "isWhitespace c")
    case True
    have "tokensAlternate (splitWs [] (dropWhile isWhitespace (c # cs)))"
      using 2(1) [OF True] by simp
    moreover have "list_all isWhitespace (takeWhile isWhitespace (c # cs))"
      by (simp add: list_all_iff del: takeWhile.simps) (meson set_takeWhileD)
    moreover have "takeWhile isWhitespace (c # cs) \<noteq> []"
      using True by simp
    ultimately show ?thesis
      using True 2(3) by (simp del: takeWhile.simps dropWhile.simps)
  next
    case False
    then show ?thesis
      using 2(2) [OF False] 2(3) by simp
  qed
qed

subsection \<open>The two loops as positional maps\<close>

lemma wordLoop_inv:
  "wordLoop wa wb m i dA dB =
     (dA @ map (\<lambda>j. WordRec (wa ! j) (if at wb j = Some (wa ! j) then TSame else TRemoved))
             [i ..< min m (length wa)],
      dB @ map (\<lambda>j. WordRec (wb ! j) (if at wa j = Some (wb ! j) then TSame else TAdded))
             [i ..< min m (length wb)])"
proof (induction wa wb m i dA dB rule: wordLoop.induct)
  case (1 wa wb m i dA dB)
  show ?case
  proof (cases "i < m")
    case False
    then show ?thesis by (subst wordLoop.simps) simp
  next
    case True
    show ?thesis
      using True 1
      apply (subst wordLoop.simps)
      apply (auto simp: at_def upt_conv_Cons split: option.splits if_splits)
      done
  qed
qed

lemma computeWordDiff_eq:
  "computeWordDiff a b =
     (map (\<lambda>j. WordRec (splitWords a ! j)
                 (if at (splitWords b) j = Some (splitWords a ! j) then TSame else TRemoved))
        [0 ..< length (splitWords a)],
      map (\<lambda>j. WordRec (splitWords b ! j)
                 (if at (splitWords a) j = Some (splitWords b ! j) then TSame else TAdded))
        [0 ..< length (splitWords b)])"
  by (simp add: computeWordDiff_def Let_def wordLoop_inv)

lemma texts_fst: "map w_text (fst (computeWordDiff a b)) = splitWords a"
  by (simp add: computeWordDiff_eq o_def map_nth)

lemma texts_snd: "map w_text (snd (computeWordDiff a b)) = splitWords b"
  by (simp add: computeWordDiff_eq o_def map_nth)

lemma lineLoop_inv:
  "lineLoop la lb m i rA rB =
     (rA @ map (\<lambda>j. case at la j of None \<Rightarrow> LineRec [] TEmpty None
                    | Some a \<Rightarrow> (case at lb j of None \<Rightarrow> LineRec a TRemoved None
                        | Some b \<Rightarrow> if a = b then LineRec a TSame None
                                    else LineRec a TChanged (Some (fst (computeWordDiff a b)))))
             [i ..< min m (max (length la) (length lb))],
      rB @ map (\<lambda>j. case at lb j of None \<Rightarrow> LineRec [] TEmpty None
                    | Some b \<Rightarrow> (case at la j of None \<Rightarrow> LineRec b TAdded None
                        | Some a \<Rightarrow> if a = b then LineRec b TSame None
                                    else LineRec b TChanged (Some (snd (computeWordDiff a b)))))
             [i ..< min m (max (length la) (length lb))])"
proof (induction la lb m i rA rB rule: lineLoop.induct)
  case (1 la lb m i rA rB)
  show ?case
  proof (cases "i < m")
    case False
    then show ?thesis by (subst lineLoop.simps) simp
  next
    case True
    show ?thesis
      using True 1
      apply (subst lineLoop.simps)
      apply (auto simp: at_def upt_conv_Cons split: option.splits if_splits)
      done
  qed
qed

lemma computeLineDiff_eq:
  "computeLineDiff textA textB =
     (map (\<lambda>j. case at (splitLines textA) j of None \<Rightarrow> LineRec [] TEmpty None
               | Some a \<Rightarrow> (case at (splitLines textB) j of None \<Rightarrow> LineRec a TRemoved None
                   | Some b \<Rightarrow> if a = b then LineRec a TSame None
                               else LineRec a TChanged (Some (fst (computeWordDiff a b)))))
        [0 ..< max (length (splitLines textA)) (length (splitLines textB))],
      map (\<lambda>j. case at (splitLines textB) j of None \<Rightarrow> LineRec [] TEmpty None
               | Some b \<Rightarrow> (case at (splitLines textA) j of None \<Rightarrow> LineRec b TAdded None
                   | Some a \<Rightarrow> if a = b then LineRec b TSame None
                               else LineRec b TChanged (Some (snd (computeWordDiff a b)))))
        [0 ..< max (length (splitLines textA)) (length (splitLines textB))])"
  by (simp add: computeLineDiff_def Let_def lineLoop_inv)

text \<open>
  Below the larger of the two lengths one of the two reads succeeds, so the loops never
  take the branch where both are \<open>undefined\<close>.
\<close>

lemma at_below_max: "i < max (length xs) (length ys) \<Longrightarrow> at xs i \<noteq> None \<or> at ys i \<noteq> None"
  by (auto simp: at_def)

subsection \<open>Evaluations\<close>

lemma sample_lines:
  "splitLines textA3 = [js ''a'', js ''b'', js ''q'']"
  "splitLines textB2 = [js ''a'', js ''c'']"
  by code_simp+

lemma sample_word_diff:
  "computeWordDiff (js ''b'') (js ''c'') = ([WordRec (js ''b'') TRemoved], [WordRec (js ''c'') TAdded])"
  by code_simp

lemma sample_words:
  "splitWords (js ''a b'') = [js ''a'', js '' '', js ''b'']"
  "splitWords (js ''a  c d'') = [js ''a'', js ''  '', js ''c'', js '' '', js ''d'']"
  by code_simp+

lemma sample_strings_differ: "js ''b'' \<noteq> js ''c''"
  by code_simp

text \<open>The empty string splits into one empty piece, and edge whitespace leaves empty pieces.\<close>

lemma split_edge_cases:
  "splitLines [] = [[]]"
  "splitWords [] = [[]]"
  "splitWords (js '' a '') = [[], js '' '', js ''a'', js '' '', []]"
  by code_simp+

subsection \<open>Line diff\<close>

text \<open>
  Claim C4. \<open>computeLineDiff\<close> splits each text on the newline character alone: there is
  one line more than there are newlines, a trailing newline gives a trailing empty line,
  no line contains a newline, and the lines joined by newlines are the text. Both results
  have as many records as the longer side has lines. The records are decided index by
  index: equal lines give \<open>same\<close> on both sides; a line only in A gives \<open>removed\<close> on A
  and an \<open>empty\<close> placeholder on B; a line only in B gives \<open>empty\<close> on A and \<open>added\<close> on B;
  two unequal lines give \<open>changed\<close> on both sides, each with its side of the word diff of
  the two lines.
\<close>

theorem computeLineDiff_positional:
  assumes "linesA = splitLines textA" and "linesB = splitLines textB"
    and "(resultA, resultB) = computeLineDiff textA textB"
  shows "length linesA = Suc (count_list textA NL) \<and>
     length linesB = Suc (count_list textB NL) \<and>
     splitLines (textA @ [NL]) = linesA @ [[]] \<and>
     concat (map (\<lambda>line. line @ [NL]) linesA) = textA @ [NL] \<and>
     (\<forall>line\<in>set linesA. NL \<notin> set line) \<and>
     length resultA = max (length linesA) (length linesB) \<and>
     length resultB = max (length linesA) (length linesB) \<and>
     (\<forall>i a b. at linesA i = Some a \<and> at linesB i = Some b \<and> a = b \<longrightarrow>
        resultA ! i = LineRec a TSame None \<and> resultB ! i = LineRec b TSame None) \<and>
     (\<forall>i a. at linesA i = Some a \<and> at linesB i = None \<longrightarrow>
        resultA ! i = LineRec a TRemoved None \<and> resultB ! i = LineRec [] TEmpty None) \<and>
     (\<forall>i b. at linesA i = None \<and> at linesB i = Some b \<longrightarrow>
        resultA ! i = LineRec [] TEmpty None \<and> resultB ! i = LineRec b TAdded None) \<and>
     (\<forall>i a b. at linesA i = Some a \<and> at linesB i = Some b \<and> a \<noteq> b \<longrightarrow>
        resultA ! i = LineRec a TChanged (Some (fst (computeWordDiff a b))) \<and>
        resultB ! i = LineRec b TChanged (Some (snd (computeWordDiff a b))))"
proof -
  have rA: "resultA = fst (computeLineDiff textA textB)"
    and rB: "resultB = snd (computeLineDiff textA textB)"
    using assms(3) by (metis fst_conv, metis snd_conv)
  have split: "length linesA = Suc (count_list textA NL) \<and>
     length linesB = Suc (count_list textB NL) \<and>
     splitLines (textA @ [NL]) = linesA @ [[]] \<and>
     concat (map (\<lambda>line. line @ [NL]) linesA) = textA @ [NL] \<and>
     (\<forall>line\<in>set linesA. NL \<notin> set line)"
    using splitOn_no_sep [of NL "[]" textA]
    by (simp add: assms(1,2) splitLines_def splitOn_length splitOn_snoc splitOn_join)
  have len: "length resultA = max (length linesA) (length linesB) \<and>
     length resultB = max (length linesA) (length linesB)"
    by (simp add: rA rB computeLineDiff_eq assms(1,2))
  have same: "\<forall>i a b. at linesA i = Some a \<and> at linesB i = Some b \<and> a = b \<longrightarrow>
        resultA ! i = LineRec a TSame None \<and> resultB ! i = LineRec b TSame None"
    by (auto simp: rA rB computeLineDiff_eq assms(1,2) at_def split: if_splits)
  have removed: "\<forall>i a. at linesA i = Some a \<and> at linesB i = None \<longrightarrow>
        resultA ! i = LineRec a TRemoved None \<and> resultB ! i = LineRec [] TEmpty None"
    by (auto simp: rA rB computeLineDiff_eq assms(1,2) at_def split: if_splits)
  have added: "\<forall>i b. at linesA i = None \<and> at linesB i = Some b \<longrightarrow>
        resultA ! i = LineRec [] TEmpty None \<and> resultB ! i = LineRec b TAdded None"
    by (auto simp: rA rB computeLineDiff_eq assms(1,2) at_def split: if_splits)
  have changed: "\<forall>i a b. at linesA i = Some a \<and> at linesB i = Some b \<and> a \<noteq> b \<longrightarrow>
        resultA ! i = LineRec a TChanged (Some (fst (computeWordDiff a b))) \<and>
        resultB ! i = LineRec b TChanged (Some (snd (computeWordDiff a b)))"
    by (auto simp: rA rB computeLineDiff_eq assms(1,2) at_def split: if_splits)
  show ?thesis
    using split len same removed added changed by blast
qed

text \<open>
  The theorem at \<open>"a\nb\nq"\<close> against \<open>"a\nc"\<close>, and the other way round: index 0 is
  the same, index 1 is changed, index 2 exists on one side only.
\<close>

theorem computeLineDiff_positional_witness:
  "at (splitLines textA3) 0 = Some (js ''a'') \<and> at (splitLines textB2) 0 = Some (js ''a'') \<and>
   fst (computeLineDiff textA3 textB2) ! 0 = LineRec (js ''a'') TSame None \<and>
   snd (computeLineDiff textA3 textB2) ! 0 = LineRec (js ''a'') TSame None \<and>
   at (splitLines textA3) 1 = Some (js ''b'') \<and> at (splitLines textB2) 1 = Some (js ''c'') \<and>
   js ''b'' \<noteq> js ''c'' \<and>
   fst (computeLineDiff textA3 textB2) ! 1 =
     LineRec (js ''b'') TChanged (Some [WordRec (js ''b'') TRemoved]) \<and>
   snd (computeLineDiff textA3 textB2) ! 1 =
     LineRec (js ''c'') TChanged (Some [WordRec (js ''c'') TAdded]) \<and>
   at (splitLines textA3) 2 = Some (js ''q'') \<and> at (splitLines textB2) 2 = None \<and>
   fst (computeLineDiff textA3 textB2) ! 2 = LineRec (js ''q'') TRemoved None \<and>
   snd (computeLineDiff textA3 textB2) ! 2 = LineRec [] TEmpty None \<and>
   fst (computeLineDiff textB2 textA3) ! 2 = LineRec [] TEmpty None \<and>
   snd (computeLineDiff textB2 textA3) ! 2 = LineRec (js ''q'') TAdded None \<and>
   length (fst (computeLineDiff textA3 textB2)) = 3 \<and>
   length (snd (computeLineDiff textA3 textB2)) = 3"
proof -
  note ab = computeLineDiff_positional [OF refl refl prod.collapse, of textA3 textB2]
  note ba = computeLineDiff_positional [OF refl refl prod.collapse, of textB2 textA3]
  show ?thesis
    using ab ba sample_strings_differ
    by (simp add: sample_lines at_def sample_word_diff)
qed

subsection \<open>Word diff\<close>

text \<open>
  Claim C7. \<open>computeWordDiff\<close> splits each line on runs of whitespace and keeps the runs:
  the text fields of each result are the tokens of its line, in which pieces free of
  whitespace alternate with non-empty runs of whitespace, and concatenating the text
  fields of a result gives back its line exactly.
\<close>

theorem computeWordDiff_roundtrip:
  "concat (map w_text (fst (computeWordDiff lineA lineB))) = lineA \<and>
   concat (map w_text (snd (computeWordDiff lineA lineB))) = lineB \<and>
   map w_text (fst (computeWordDiff lineA lineB)) = splitWords lineA \<and>
   map w_text (snd (computeWordDiff lineA lineB)) = splitWords lineB \<and>
   tokensAlternate (splitWords lineA) \<and> tokensAlternate (splitWords lineB)"
  by (simp add: texts_fst texts_snd splitWords_def splitWs_concat splitWs_alternate)

text \<open>
  Claim C10. Each result of \<open>computeWordDiff\<close> has as many records as its own line has
  tokens. A token past the end of the other side gives a record on its own side only
  (\<open>removed\<close> on A, \<open>added\<close> on B); no record is an \<open>empty\<close> placeholder: those of A are
  \<open>same\<close> or \<open>removed\<close>, those of B are \<open>same\<close> or \<open>added\<close>. So the two results differ in
  length whenever the token counts differ.
\<close>

theorem computeWordDiff_lengths:
  "length (fst (computeWordDiff lineA lineB)) = length (splitWords lineA) \<and>
   length (snd (computeWordDiff lineA lineB)) = length (splitWords lineB) \<and>
   (\<forall>i. length (splitWords lineB) \<le> i \<and> i < length (splitWords lineA) \<longrightarrow>
        fst (computeWordDiff lineA lineB) ! i = WordRec (splitWords lineA ! i) TRemoved) \<and>
   (\<forall>i. length (splitWords lineA) \<le> i \<and> i < length (splitWords lineB) \<longrightarrow>
        snd (computeWordDiff lineA lineB) ! i = WordRec (splitWords lineB ! i) TAdded) \<and>
   (\<forall>d \<in> set (fst (computeWordDiff lineA lineB)). w_type d = TSame \<or> w_type d = TRemoved) \<and>
   (\<forall>d \<in> set (snd (computeWordDiff lineA lineB)). w_type d = TSame \<or> w_type d = TAdded) \<and>
   (length (splitWords lineA) \<noteq> length (splitWords lineB) \<longrightarrow>
      length (fst (computeWordDiff lineA lineB)) \<noteq> length (snd (computeWordDiff lineA lineB)))"
  by (auto simp: computeWordDiff_eq at_def)

text \<open>The theorem at \<open>"a b"\<close> (three tokens) against \<open>"a  c d"\<close> (five tokens).\<close>

theorem computeWordDiff_lengths_witness:
  "length (splitWords (js ''a b'')) = 3 \<and> length (splitWords (js ''a  c d'')) = 5 \<and>
   length (fst (computeWordDiff (js ''a b'') (js ''a  c d''))) = 3 \<and>
   length (snd (computeWordDiff (js ''a b'') (js ''a  c d''))) = 5 \<and>
   snd (computeWordDiff (js ''a b'') (js ''a  c d'')) ! 3 = WordRec (js '' '') TAdded \<and>
   snd (computeWordDiff (js ''a b'') (js ''a  c d'')) ! 4 = WordRec (js ''d'') TAdded \<and>
   fst (computeWordDiff (js ''a  c d'') (js ''a b'')) ! 4 = WordRec (js ''d'') TRemoved"
  using computeWordDiff_lengths [of "js ''a b''" "js ''a  c d''"]
    computeWordDiff_lengths [of "js ''a  c d''" "js ''a b''"]
  by (simp add: sample_words)

section \<open>Properties of the structural diff\<close>

subsection \<open>The map of prompts\<close>

lemma map_of_mapSet: "map_of (mapSet k v m) = (map_of m)(k \<mapsto> v)"
  by (induction m) auto

lemma keys_mapSet:
  "map fst (mapSet k v m) = (if k \<in> fst ` set m then map fst m else map fst m @ [k])"
  by (induction m) (force simp: image_iff)+

lemma newMap_snoc: "newMap (es @ [(k, v)]) = mapSet k v (newMap es)"
  by (simp add: newMap_def)

lemma keys_newMap: "map fst (newMap es) = rev (remdups (rev (map fst es)))"
proof (induction es rule: rev_induct)
  case Nil
  show ?case by (simp add: newMap_def)
next
  case (snoc e es)
  obtain k v where e: "e = (k, v)" by (cases e)
  have "fst ` set (newMap es) = fst ` set es"
    using snoc.IH by (metis set_map set_remdups set_rev)
  then show ?case
    using snoc.IH by (simp add: e newMap_snoc keys_mapSet)
qed

lemma distinct_keys_newMap: "distinct (map fst (newMap es))"
  by (simp add: keys_newMap)

lemma set_keys_newMap: "fst ` set (newMap es) = fst ` set es"
  by (metis keys_newMap set_map set_remdups set_rev)

lemma map_of_newMap: "map_of (newMap es) = map_of (rev es)"
proof (induction es rule: rev_induct)
  case Nil
  show ?case by (simp add: newMap_def)
next
  case (snoc e es)
  obtain k v where e: "e = (k, v)" by (cases e)
  show ?case
    using snoc.IH by (simp add: e newMap_snoc map_of_mapSet)
qed

lemma distinct_promptMap: "distinct (map fst (promptMap s))"
  by (simp add: promptMap_def distinct_keys_newMap)

lemma promptMap_entry: "(k, p) \<in> set (promptMap s) \<longleftrightarrow> mapGet (promptMap s) k = Some p"
  by (simp add: mapGet_def distinct_promptMap)

lemma mapHas_mapGet: "mapHas m k \<longleftrightarrow> mapGet m k \<noteq> None"
  by (simp add: mapHas_def mapGet_def)

lemma promptMap_keys: "mapHas (promptMap s) k \<longleftrightarrow> k \<in> p_identifier ` set (prompts s)"
proof -
  have "mapHas (promptMap s) k \<longleftrightarrow> k \<in> fst ` set (promptMap s)"
    by (simp add: mapHas_def map_of_eq_None_iff)
  also have "\<dots> \<longleftrightarrow> k \<in> p_identifier ` set (prompts s)"
    by (simp add: promptMap_def set_keys_newMap image_image)
  finally show ?thesis .
qed

subsection \<open>Resolution of the enabled flag\<close>

lemma findOrder_firstListWith:
  "enabledOf (findOrder os k) k =
     (case firstListWith k os of None \<Rightarrow> None
      | Some es \<Rightarrow> map_option e_enabled (List.find (\<lambda>e. e_identifier e = k) es))"
  by (induction os)
     (auto simp: findOrder_def enabledOf_def list_ex_iff split: option.splits)

lemma enabledOf_resolved:
  "enabledOf (findOrder (promptOrder s) k) k = resolvedEnabled s k"
  by (simp add: findOrder_firstListWith resolvedEnabled_def)

lemma firstListWith_Some:
  "firstListWith k os = Some es \<Longrightarrow> k \<in> set (map e_identifier es)"
  by (induction os) (auto split: option.splits if_splits)

lemma firstListWith_None:
  "firstListWith k os = None \<longleftrightarrow>
     (\<forall>entry\<in>set os. \<forall>es. o_order entry = Some es \<longrightarrow> k \<notin> set (map e_identifier es))"
  by (induction os) (auto split: option.splits if_splits)

lemma resolvedEnabled_None:
  "resolvedEnabled s k = None \<longleftrightarrow>
     (\<forall>entry\<in>set (promptOrder s). \<forall>es. o_order entry = Some es \<longrightarrow>
        k \<notin> set (map e_identifier es))"
proof (cases "firstListWith k (promptOrder s)")
  case None
  then show ?thesis
    using firstListWith_None [of k "promptOrder s"] by (simp add: resolvedEnabled_def)
next
  case (Some es)
  then have "k \<in> set (map e_identifier es)" by (rule firstListWith_Some)
  then have "List.find (\<lambda>e. e_identifier e = k) es \<noteq> None"
    by (auto simp: find_None_iff)
  then have "resolvedEnabled s k \<noteq> None"
    using Some by (simp add: resolvedEnabled_def)
  moreover have "\<not> (\<forall>entry\<in>set (promptOrder s). \<forall>es. o_order entry = Some es \<longrightarrow>
        k \<notin> set (map e_identifier es))"
    using Some firstListWith_None [of k "promptOrder s"] by (metis option.distinct(1))
  ultimately show ?thesis by blast
qed

subsection \<open>The two loops\<close>

lemma compareLoop_eq:
  "compareLoop a b (promptMap b) es acc =
     acc @ concat (map (\<lambda>(k, pA). changesFor a b k pA) es)"
  by (induction es arbitrary: acc)
     (auto simp: changesFor_def Let_def split: option.splits)

lemma addedLoop_eq:
  "addedLoop pA es acc =
     acc @ map (\<lambda>(k, pB). Added k (p_name pB)) (filter (\<lambda>(k, pB). \<not> mapHas pA k) es)"
  by (induction es arbitrary: acc) auto

lemma diff_structure:
  "getPromptDifferences (Some a) (Some b) =
     concat (map (\<lambda>(k, pA). changesFor a b k pA) (promptMap a)) @
     map (\<lambda>(k, pB). Added k (p_name pB))
       (filter (\<lambda>(k, pB). \<not> mapHas (promptMap a) k) (promptMap b))"
  by (simp add: getPromptDifferences_def Let_def compareLoop_eq addedLoop_eq)

lemma changesFor_ident: "d \<in> set (changesFor a b k pA) \<Longrightarrow> c_identifier d = k \<and> \<not> is_Added d"
  by (auto simp: changesFor_def split: option.splits if_splits)

lemma filter_concat_key:
  assumes "distinct (map fst es)" and "map_of es k = Some p"
    and "\<And>k' p' d. (k', p') \<in> set es \<Longrightarrow> d \<in> set (f k' p') \<Longrightarrow> c_identifier d = k'"
  shows "filter (\<lambda>d. c_identifier d = k \<and> Q d) (concat (map (\<lambda>(k', p'). f k' p') es)) =
           filter Q (f k p)"
  using assms
proof (induction es)
  case Nil
  then show ?case by simp
next
  case (Cons e es)
  obtain k' p' where e: "e = (k', p')" by (cases e)
  have own: "\<And>d. d \<in> set (f k' p') \<Longrightarrow> c_identifier d = k'"
    using Cons.prems(3) [of k' p'] by (simp add: e)
  show ?case
  proof (cases "k' = k")
    case True
    then have p: "p' = p" using Cons.prems(2) by (simp add: e)
    have notin: "k \<notin> fst ` set es" using Cons.prems(1) True by (simp add: e)
    have "filter (\<lambda>d. c_identifier d = k \<and> Q d) (concat (map (\<lambda>(k', p'). f k' p') es)) = []"
    proof -
      have "\<And>d. d \<in> set (concat (map (\<lambda>(k', p'). f k' p') es)) \<Longrightarrow> c_identifier d \<noteq> k"
      proof -
        fix d assume "d \<in> set (concat (map (\<lambda>(k', p'). f k' p') es))"
        then obtain k2 p2 where kp: "(k2, p2) \<in> set es" "d \<in> set (f k2 p2)" by auto
        then have "c_identifier d = k2" using Cons.prems(3) [of k2 p2 d] by simp
        moreover have "k2 \<noteq> k" using kp(1) notin by force
        ultimately show "c_identifier d \<noteq> k" by simp
      qed
      then show ?thesis by (simp add: filter_empty_conv)
    qed
    moreover have "filter (\<lambda>d. c_identifier d = k \<and> Q d) (f k' p') = filter Q (f k p)"
      using own True p by (auto intro: filter_cong)
    ultimately show ?thesis by (simp add: e)
  next
    case False
    then have m: "map_of es k = Some p" using Cons.prems(2) by (simp add: e)
    have di: "distinct (map fst es)" using Cons.prems(1) by simp
    have ow: "\<And>k' p' d. (k', p') \<in> set es \<Longrightarrow> d \<in> set (f k' p') \<Longrightarrow> c_identifier d = k'"
      using Cons.prems(3) by (meson list.set_intros(2))
    have IH: "filter (\<lambda>d. c_identifier d = k \<and> Q d)
        (concat (map (\<lambda>(k', p'). f k' p') es)) = filter Q (f k p)"
      using di m ow by (rule Cons.IH)
    have "filter (\<lambda>d. c_identifier d = k \<and> Q d) (f k' p') = []"
      using own False by (auto simp: filter_empty_conv)
    then show ?thesis using IH by (simp add: e)
  qed
qed

lemma filter_diff_key:
  assumes "mapGet (promptMap a) k = Some pA"
  shows "filter (\<lambda>d. c_identifier d = k \<and> Q d) (getPromptDifferences (Some a) (Some b)) =
           filter Q (changesFor a b k pA)"
proof -
  have 1: "filter (\<lambda>d. c_identifier d = k \<and> Q d)
             (concat (map (\<lambda>(k', p'). changesFor a b k' p') (promptMap a))) =
           filter Q (changesFor a b k pA)"
    using assms
    by (intro filter_concat_key) (auto simp: distinct_promptMap mapGet_def changesFor_ident)
  have 2: "filter (\<lambda>d. c_identifier d = k \<and> Q d)
             (map (\<lambda>(k, pB). Added k (p_name pB))
               (filter (\<lambda>(k, pB). \<not> mapHas (promptMap a) k) (promptMap b))) = []"
    using assms by (auto simp: filter_empty_conv mapHas_mapGet)
  show ?thesis
    unfolding diff_structure filter_append 1 2 by simp
qed

lemma in_changesFor_Removed:
  "Removed k' n \<in> set (changesFor a b k pA) \<longleftrightarrow>
     k' = k \<and> n = p_name pA \<and> mapGet (promptMap b) k = None"
  by (auto simp: changesFor_def split: option.splits)

lemma in_changesFor_Added: "Added k' n \<notin> set (changesFor a b k pA)"
  by (auto simp: changesFor_def split: option.splits)

lemma in_changesFor_ContentChanged:
  "ContentChanged k' n ca cb \<in> set (changesFor a b k pA) \<longleftrightarrow>
     (\<exists>pB. mapGet (promptMap b) k = Some pB \<and> k' = k \<and> n = p_name pA \<and>
           ca = p_content pA \<and> cb = p_content pB \<and> ca \<noteq> cb)"
  by (auto simp: changesFor_def split: option.splits)

lemma in_changesFor_EnabledChanged:
  "EnabledChanged k' n ea eb \<in> set (changesFor a b k pA) \<longleftrightarrow>
     (\<exists>pB. mapGet (promptMap b) k = Some pB \<and> k' = k \<and> n = p_name pA \<and>
           ea = enabledOf (findOrder (promptOrder a) k) k \<and>
           eb = enabledOf (findOrder (promptOrder b) k) k \<and> ea \<noteq> eb)"
  by (auto simp: changesFor_def split: option.splits)

lemma mem_diff:
  "d \<in> set (getPromptDifferences (Some a) (Some b)) \<longleftrightarrow>
     (\<exists>k pA. mapGet (promptMap a) k = Some pA \<and> d \<in> set (changesFor a b k pA)) \<or>
     (\<exists>k pB. mapGet (promptMap b) k = Some pB \<and> mapGet (promptMap a) k = None \<and>
              d = Added k (p_name pB))"
proof -
  have "set (getPromptDifferences (Some a) (Some b)) =
          (\<Union>(k, pA)\<in>set (promptMap a). set (changesFor a b k pA)) \<union>
          {Added k (p_name pB) | k pB. (k, pB) \<in> set (promptMap b) \<and> \<not> mapHas (promptMap a) k}"
    by (force simp: diff_structure)
  then show ?thesis
    by (auto simp: promptMap_entry mapHas_mapGet)
qed

lemma Removed_iff:
  "Removed k n \<in> set (getPromptDifferences (Some a) (Some b)) \<longleftrightarrow>
     (\<exists>pA. mapGet (promptMap a) k = Some pA \<and> mapGet (promptMap b) k = None \<and> n = p_name pA)"
  by (auto simp: mem_diff in_changesFor_Removed)

lemma Added_iff:
  "Added k n \<in> set (getPromptDifferences (Some a) (Some b)) \<longleftrightarrow>
     (\<exists>pB. mapGet (promptMap b) k = Some pB \<and> mapGet (promptMap a) k = None \<and> n = p_name pB)"
  by (auto simp: mem_diff in_changesFor_Added)

lemma ContentChanged_iff:
  "ContentChanged k n ca cb \<in> set (getPromptDifferences (Some a) (Some b)) \<longleftrightarrow>
     (\<exists>pA pB. mapGet (promptMap a) k = Some pA \<and> mapGet (promptMap b) k = Some pB \<and>
        n = p_name pA \<and> ca = p_content pA \<and> cb = p_content pB \<and> ca \<noteq> cb)"
  by (auto simp: mem_diff in_changesFor_ContentChanged)

lemma EnabledChanged_iff:
  "EnabledChanged k n ea eb \<in> set (getPromptDifferences (Some a) (Some b)) \<longleftrightarrow>
     (\<exists>pA pB. mapGet (promptMap a) k = Some pA \<and> mapGet (promptMap b) k = Some pB \<and>
        n = p_name pA \<and> ea = enabledOf (findOrder (promptOrder a) k) k \<and>
        eb = enabledOf (findOrder (promptOrder b) k) k \<and> ea \<noteq> eb)"
  by (auto simp: mem_diff in_changesFor_EnabledChanged)

lemma diff_self: "getPromptDifferences (Some A) (Some A) = []"
proof -
  have "\<And>k pA. (k, pA) \<in> set (promptMap A) \<Longrightarrow> changesFor A A k pA = []"
    by (simp add: promptMap_entry changesFor_def)
  moreover have "\<And>k pA. (k, pA) \<in> set (promptMap A) \<Longrightarrow> mapHas (promptMap A) k"
    by (simp add: promptMap_entry mapHas_mapGet)
  ultimately show ?thesis
    by (auto simp: diff_structure filter_empty_conv)
qed

subsection \<open>Evaluations\<close>

lemma sample_diff_AB:
  "getPromptDifferences (Some sampleA) (Some sampleB) =
     [ContentChanged (js ''p1'') (js ''Main'') (Some (js ''Hello'')) (Some (js ''Hi'')),
      EnabledChanged (js ''p1'') (js ''Main'') (Some True) (Some False),
      Removed (js ''p2'') (js ''Old''),
      Added (js ''p4'') (js ''New'')]"
  by code_simp

lemma sample_diff_BA:
  "getPromptDifferences (Some sampleB) (Some sampleA) =
     [ContentChanged (js ''p1'') (js ''Main2'') (Some (js ''Hi'')) (Some (js ''Hello'')),
      EnabledChanged (js ''p1'') (js ''Main2'') (Some False) (Some True),
      Removed (js ''p4'') (js ''New''),
      Added (js ''p2'') (js ''Old'')]"
  by code_simp

lemma sample_keys:
  "js ''p1'' \<in> p_identifier ` set (prompts sampleA)"
  "js ''p1'' \<in> p_identifier ` set (prompts sampleB)"
  by (simp_all add: sampleA_def sampleB_def samplePrompt_def)

lemma sample_resolved:
  "resolvedEnabled sampleA (js ''p1'') = Some True"
  "resolvedEnabled sampleB (js ''p1'') = Some False"
  "resolvedEnabled sampleA (js ''p2'') = None"
  by code_simp+

lemma sample_changesFor:
  "changesFor sampleA sampleB (js ''p1'') (samplePrompt ''p1'' ''Main'' ''Hello'') =
     [ContentChanged (js ''p1'') (js ''Main'') (Some (js ''Hello'')) (Some (js ''Hi'')),
      EnabledChanged (js ''p1'') (js ''Main'') (Some True) (Some False)]"
  by code_simp

text \<open>
  With duplicate identifiers the map keeps the position of the first occurrence and the
  value of the last one.
\<close>

lemma newMap_duplicate:
  "newMap [(js ''a'', 1::nat), (js ''b'', 2), (js ''a'', 3)] = [(js ''a'', 3), (js ''b'', 2)]"
  by code_simp

subsection \<open>Claims\<close>

text \<open>
  Claim C3. For an identifier \<open>k\<close> present in the prompts of both snapshots, the diff
  resolves the enabled flag of \<open>k\<close> on each side as the specification says (first entry
  of \<open>promptOrder\<close> whose order list contains \<open>k\<close>, \<open>undefined\<close> exactly when no order
  list contains it), holds one \<open>EnabledChanged\<close> record for \<open>k\<close> with the two resolved
  values when they differ and none otherwise, and, independently of that, one
  \<open>ContentChanged\<close> record for \<open>k\<close> when the contents differ and none otherwise.
\<close>

theorem enabled_flag_resolution:
  assumes "k \<in> p_identifier ` set (prompts A)" and "k \<in> p_identifier ` set (prompts B)"
  shows "\<exists>pA pB. mapGet (promptMap A) k = Some pA \<and> mapGet (promptMap B) k = Some pB \<and>
     filter (\<lambda>d. c_identifier d = k \<and> is_EnabledChanged d)
       (getPromptDifferences (Some A) (Some B)) =
       (if resolvedEnabled A k \<noteq> resolvedEnabled B k
        then [EnabledChanged k (p_name pA) (resolvedEnabled A k) (resolvedEnabled B k)]
        else []) \<and>
     filter (\<lambda>d. c_identifier d = k \<and> is_ContentChanged d)
       (getPromptDifferences (Some A) (Some B)) =
       (if p_content pA \<noteq> p_content pB
        then [ContentChanged k (p_name pA) (p_content pA) (p_content pB)]
        else []) \<and>
     resolvedEnabled A k = enabledOf (findOrder (promptOrder A) k) k \<and>
     resolvedEnabled B k = enabledOf (findOrder (promptOrder B) k) k \<and>
     (resolvedEnabled A k = None \<longleftrightarrow>
        (\<forall>entry\<in>set (promptOrder A). \<forall>es. o_order entry = Some es \<longrightarrow>
           k \<notin> set (map e_identifier es))) \<and>
     (resolvedEnabled B k = None \<longleftrightarrow>
        (\<forall>entry\<in>set (promptOrder B). \<forall>es. o_order entry = Some es \<longrightarrow>
           k \<notin> set (map e_identifier es)))"
proof -
  obtain pA where pA: "mapGet (promptMap A) k = Some pA"
    using assms(1) promptMap_keys [of A k] by (auto simp: mapHas_mapGet)
  obtain pB where pB: "mapGet (promptMap B) k = Some pB"
    using assms(2) promptMap_keys [of B k] by (auto simp: mapHas_mapGet)
  have e: "filter (\<lambda>d. c_identifier d = k \<and> is_EnabledChanged d)
       (getPromptDifferences (Some A) (Some B)) =
       (if resolvedEnabled A k \<noteq> resolvedEnabled B k
        then [EnabledChanged k (p_name pA) (resolvedEnabled A k) (resolvedEnabled B k)]
        else [])"
    by (simp add: filter_diff_key [OF pA] changesFor_def pB enabledOf_resolved)
  have c: "filter (\<lambda>d. c_identifier d = k \<and> is_ContentChanged d)
       (getPromptDifferences (Some A) (Some B)) =
       (if p_content pA \<noteq> p_content pB
        then [ContentChanged k (p_name pA) (p_content pA) (p_content pB)]
        else [])"
    by (simp add: filter_diff_key [OF pA] changesFor_def pB enabledOf_resolved)
  show ?thesis
    using pA pB e c resolvedEnabled_None [of A k] resolvedEnabled_None [of B k]
    by (simp add: enabledOf_resolved)
qed

text \<open>
  The theorem at the identifier \<open>p1\<close> of the two samples, whose content and whose enabled
  flag both change: one identifier gives both records.
\<close>

theorem enabled_flag_resolution_witness:
  "js ''p1'' \<in> p_identifier ` set (prompts sampleA) \<and>
   js ''p1'' \<in> p_identifier ` set (prompts sampleB) \<and>
   filter (\<lambda>d. c_identifier d = js ''p1'' \<and> is_EnabledChanged d)
     (getPromptDifferences (Some sampleA) (Some sampleB)) =
     [EnabledChanged (js ''p1'') (js ''Main'') (Some True) (Some False)] \<and>
   filter (\<lambda>d. c_identifier d = js ''p1'' \<and> is_ContentChanged d)
     (getPromptDifferences (Some sampleA) (Some sampleB)) =
     [ContentChanged (js ''p1'') (js ''Main'') (Some (js ''Hello'')) (Some (js ''Hi''))]"
  using enabled_flag_resolution [OF sample_keys(1) sample_keys(2)] sample_keys
  by (simp add: sample_diff_AB)

text \<open>
  Claim C5. The diffs of A against B and of B against A mirror each other: an \<open>Added\<close>
  record of one is a \<open>Removed\<close> record of the other with the same identifier and name,
  and conversely; a \<open>ContentChanged\<close> or \<open>EnabledChanged\<close> record of one has a record of
  the same kind and identifier in the other with the A and B fields exchanged (the name
  it carries is the one of the first argument's prompt).
\<close>

theorem diff_reversal:
  "(Added k n \<in> set (getPromptDifferences (Some A) (Some B)) \<longleftrightarrow>
      Removed k n \<in> set (getPromptDifferences (Some B) (Some A))) \<and>
   (Removed k n \<in> set (getPromptDifferences (Some A) (Some B)) \<longleftrightarrow>
      Added k n \<in> set (getPromptDifferences (Some B) (Some A))) \<and>
   (ContentChanged k n ca cb \<in> set (getPromptDifferences (Some A) (Some B)) \<longrightarrow>
      (\<exists>n'. ContentChanged k n' cb ca \<in> set (getPromptDifferences (Some B) (Some A)))) \<and>
   (EnabledChanged k n ea eb \<in> set (getPromptDifferences (Some A) (Some B)) \<longrightarrow>
      (\<exists>n'. EnabledChanged k n' eb ea \<in> set (getPromptDifferences (Some B) (Some A))))"
  by (auto simp: Added_iff Removed_iff ContentChanged_iff EnabledChanged_iff)

text \<open>The theorem at the two samples.\<close>

theorem diff_reversal_witness:
  "Added (js ''p4'') (js ''New'') \<in> set (getPromptDifferences (Some sampleA) (Some sampleB)) \<and>
   Removed (js ''p4'') (js ''New'') \<in> set (getPromptDifferences (Some sampleB) (Some sampleA)) \<and>
   Removed (js ''p2'') (js ''Old'') \<in> set (getPromptDifferences (Some sampleA) (Some sampleB)) \<and>
   Added (js ''p2'') (js ''Old'') \<in> set (getPromptDifferences (Some sampleB) (Some sampleA)) \<and>
   ContentChanged (js ''p1'') (js ''Main'') (Some (js ''Hello'')) (Some (js ''Hi''))
     \<in> set (getPromptDifferences (Some sampleA) (Some sampleB)) \<and>
   ContentChanged (js ''p1'') (js ''Main2'') (Some (js ''Hi'')) (Some (js ''Hello''))
     \<in> set (getPromptDifferences (Some sampleB) (Some sampleA)) \<and>
   EnabledChanged (js ''p1'') (js ''Main'') (Some True) (Some False)
     \<in> set (getPromptDifferences (Some sampleA) (Some sampleB)) \<and>
   EnabledChanged (js ''p1'') (js ''Main2'') (Some False) (Some True)
     \<in> set (getPromptDifferences (Some sampleB) (Some sampleA))"
  using diff_reversal [of "js ''p4''" "js ''New''" sampleA sampleB]
    diff_reversal [of "js ''p2''" "js ''Old''" sampleA sampleB]
    diff_reversal [of "js ''p1''" "js ''Main''" sampleA sampleB
      "Some (js ''Hello'')" "Some (js ''Hi'')" "Some True" "Some False"]
  by (simp add: sample_diff_AB sample_diff_BA)

text \<open>
  Claim C6. The diff of a snapshot (present or absent) against itself is empty, and
  \<open>renderDifferences\<close> shows "No differences found" for the empty array only.
\<close>

theorem diff_self_empty:
  "getPromptDifferences stateA stateA = [] \<and>
   (renderDifferences differences = NoDifferencesFound \<longleftrightarrow> differences = [])"
proof (cases stateA)
  case None
  then show ?thesis by (simp add: getPromptDifferences_def renderDifferences_def)
next
  case (Some a)
  then show ?thesis by (simp add: diff_self renderDifferences_def)
qed

text \<open>
  Claim C9. When one of the two snapshots is absent, \<open>getPromptDifferences\<close> returns the
  empty array.
\<close>

theorem diff_absent_snapshot:
  "getPromptDifferences None stateB = [] \<and> getPromptDifferences stateA None = []"
  by (simp add: getPromptDifferences_def split: option.splits)

text \<open>
  Claim C8. The diff consists of the records of the comparisons of the identifiers of A,
  in the key order of A's map (the order of first occurrence in A's prompts), each of them
  a \<open>Removed\<close>, \<open>ContentChanged\<close> or \<open>EnabledChanged\<close> record of its identifier, followed by
  the \<open>Added\<close> records of the identifiers that only B has, in the key order of B's map.
\<close>

theorem diff_order:
  "getPromptDifferences (Some A) (Some B) =
     concat (map (\<lambda>(k, pA). changesFor A B k pA) (promptMap A)) @
     map (\<lambda>(k, pB). Added k (p_name pB))
       (filter (\<lambda>(k, pB). k \<notin> p_identifier ` set (prompts A)) (promptMap B)) \<and>
   map fst (promptMap A) = rev (remdups (rev (map p_identifier (prompts A)))) \<and>
   map fst (promptMap B) = rev (remdups (rev (map p_identifier (prompts B)))) \<and>
   (\<forall>d\<in>set (changesFor A B k pA). c_identifier d = k \<and> \<not> is_Added d)"
  by (simp add: diff_structure promptMap_keys changesFor_ident)
     (simp add: promptMap_def keys_newMap o_def)

text \<open>The theorem at the two samples and the identifier \<open>p1\<close>.\<close>

theorem diff_order_witness:
  "getPromptDifferences (Some sampleA) (Some sampleB) =
     [ContentChanged (js ''p1'') (js ''Main'') (Some (js ''Hello'')) (Some (js ''Hi'')),
      EnabledChanged (js ''p1'') (js ''Main'') (Some True) (Some False),
      Removed (js ''p2'') (js ''Old'')] @
     [Added (js ''p4'') (js ''New'')] \<and>
   map fst (promptMap sampleA) = [js ''p1'', js ''p2'', js ''p3''] \<and>
   EnabledChanged (js ''p1'') (js ''Main'') (Some True) (Some False)
     \<in> set (changesFor sampleA sampleB (js ''p1'') (samplePrompt ''p1'' ''Main'' ''Hello'')) \<and>
   c_identifier (EnabledChanged (js ''p1'') (js ''Main'') (Some True) (Some False)) = js ''p1'' \<and>
   \<not> is_Added (EnabledChanged (js ''p1'') (js ''Main'') (Some True) (Some False))"
proof -
  have keys: "rev (remdups (rev (map p_identifier (prompts sampleA)))) =
      [js ''p1'', js ''p2'', js ''p3'']"
    by code_simp
  show ?thesis
    using diff_order [of sampleA sampleB "js ''p1''" "samplePrompt ''p1'' ''Main'' ''Hello''"]
    by (simp add: sample_diff_AB sample_changesFor keys)
qed

section \<open>Properties of the substitution of state\<close>

subsection \<open>Applying and capturing\<close>

lemma apply_fst:
  "fst (applyPromptState h state l) =
     (case serviceSettings l of None \<Rightarrow> l
      | Some ss \<Rightarrow>
          (case state of None \<Rightarrow> l
           | Some s \<Rightarrow>
               l\<lparr>serviceSettings :=
                    Some (ss\<lparr>ss_prompts := prompts s, ss_prompt_order := promptOrder s\<rparr>)\<rparr>))"
  by (simp add: applyPromptState_def Let_def split: option.splits)

lemma apply_available:
  "serviceSettings (fst (applyPromptState h state l)) = None \<longleftrightarrow> serviceSettings l = None"
  by (simp add: apply_fst split: option.splits)

lemma tryBlock_available:
  "serviceSettings (fst (tryBlock h state tm l)) = None \<longleftrightarrow> serviceSettings l = None"
proof -
  obtain l1 r where a: "applyPromptState h state l = (l1, r)"
    by (cases "applyPromptState h state l")
  have l1: "serviceSettings l1 = None \<longleftrightarrow> serviceSettings l = None"
    using apply_available [of h state l] a by simp
  show ?thesis
    using l1 by (cases r) (auto simp: tryBlock_def a Let_def split: option.splits sum.splits)
qed

lemma capture_fields:
  "serviceSettings l = Some ss \<Longrightarrow>
   \<exists>s. captureCurrentPromptState h l = Some s \<and> prompts s = ss_prompts ss \<and>
       promptOrder s = ss_prompt_order ss"
  by (simp add: captureCurrentPromptState_def Let_def)

lemma capture_None: "captureCurrentPromptState h l = None \<longleftrightarrow> serviceSettings l = None"
  by (simp add: captureCurrentPromptState_def Let_def split: option.splits)

text \<open>Applying what was just captured changes nothing in the live session.\<close>

lemma apply_capture_idempotent:
  "fst (applyPromptState h (captureCurrentPromptState h l) l) = l"
proof (cases "serviceSettings l")
  case None
  then show ?thesis by (simp add: apply_fst)
next
  case (Some ss)
  then obtain s where "captureCurrentPromptState h l = Some s" "prompts s = ss_prompts ss"
      "promptOrder s = ss_prompt_order ss"
    using capture_fields by blast
  then show ?thesis using Some by (simp add: apply_fst)
qed

lemma restore_completion:
  assumes "serviceSettings l = Some ss" and "serviceSettings l1 = Some ss1"
    and "captureCurrentPromptState h l = Some s"
  shows "snd (applyPromptState h (Some s) (l1\<lparr>chat := c\<rparr>)) =
           (case render h ss of Some e \<Rightarrow> Raised e | None \<Rightarrow> Returned True)"
proof -
  obtain s' where "captureCurrentPromptState h l = Some s'" "prompts s' = ss_prompts ss"
      "promptOrder s' = ss_prompt_order ss"
    using capture_fields [OF assms(1)] by blast
  then have "ss1\<lparr>ss_prompts := prompts s, ss_prompt_order := promptOrder s\<rparr> = ss"
    using assms(3) by simp
  then show ?thesis
    using assms(2) by (simp add: applyPromptState_def Let_def split: option.splits)
qed

subsection \<open>The completion of a call\<close>

text \<open>
  An exception of the re-render in the \<open>finally\<close> block wins; otherwise the call
  completes as the \<open>try\<close> block did, its exception passed through the \<open>catch\<close> block.
\<close>

lemma generateWithState_completion:
  "snd (snd (generateWithState h state tm l)) =
     (case (case serviceSettings l of None \<Rightarrow> None | Some ss \<Rightarrow> render h ss) of
        Some e \<Rightarrow> Raised e
      | None \<Rightarrow>
          (case snd (snd (tryBlock h state tm l)) of
             Returned t \<Rightarrow> Returned t
           | Raised e \<Rightarrow> catchBlock e))"
proof -
  obtain l1 shown body where t: "tryBlock h state tm l = (l1, shown, body)"
    by (cases "tryBlock h state tm l")
  have av: "serviceSettings l1 = None \<longleftrightarrow> serviceSettings l = None"
    using tryBlock_available [of h state tm l] t by simp
  show ?thesis
  proof (cases "serviceSettings l")
    case None
    then have "captureCurrentPromptState h l = None" by (simp add: capture_None)
    then show ?thesis
      using None by (simp add: generateWithState_def t Let_def)
  next
    case (Some ss)
    then obtain s where s: "captureCurrentPromptState h l = Some s"
      using capture_fields by blast
    obtain ss1 where ss1: "serviceSettings l1 = Some ss1" using av Some by auto
    note r = restore_completion [OF Some ss1 s, of "chat l"]
    show ?thesis
      using r Some
      by (cases "applyPromptState h (Some s) (l1\<lparr>chat := chat l\<rparr>)")
         (auto simp: generateWithState_def t s Let_def split: completion.splits option.splits)
  qed
qed

subsection \<open>Evaluations\<close>

text \<open>
  A successful call with a test message: the promise is fulfilled with nothing, so the
  last partial text is returned; the generation saw the applied snapshot and the
  appended message.
\<close>

lemma sample_success:
  "snd (generateWithState (sampleHost renderOk (Inr None)) (Some sampleB) (Some (js '' hi ''))
     sampleSession) = (Some (js ''Hello''), Returned (js ''Hello''))"
  by code_simp

lemma sample_success_result:
  "snd (snd (generateWithState (sampleHost renderOk (Inr (Some (js ''Final'')))) (Some sampleB) None
     sampleSession)) = Returned (js ''Final'')"
  by code_simp

lemma sample_try_state:
  "fst (tryBlock (sampleHost renderOk (Inr None)) (Some sampleB) (Some (js '' hi '')) sampleSession) =
     \<lparr>serviceSettings = Some \<lparr>ss_prompts = [], ss_prompt_order = []\<rparr>,
      chat = [sampleMessage,
              \<lparr>m_name = js ''User'', m_is_user = True, m_mes = js ''hi'', m_send_date = 7\<rparr>,
              sampleMessage\<lparr>m_is_user := False\<rparr>]\<rparr>"
  by code_simp

lemma sample_rejection:
  "snd (snd (tryBlock (sampleHost renderOk (Inl (Thrown (Some (js ''boom''))))) (Some sampleB) None
     sampleSession)) = Raised (Thrown (Some (js ''boom'')))"
  by code_simp

lemma sample_render_ok:
  "render (sampleHost renderOk res) ss = None"
  by (simp add: sampleHost_def renderOk_def)

lemma sample_session_settings: "serviceSettings sampleSession = Some sampleSettings"
  by (simp add: sampleSession_def)

lemma sample_error_text: "js ''Error: '' @ messageText (Thrown (Some (js ''boom''))) = js ''Error: boom''"
  by code_simp

subsection \<open>Claims\<close>

text \<open>
  Claim C1. Whatever the snapshot, the test message, the host's \<open>render\<close> and the
  outcome of the generation (fulfilled, rejected, or an exception of \<open>render\<close> while the
  snapshot is applied), the live session after \<open>generateWithState\<close> is the one before
  it: the transcript is the copy taken at the start, and the configuration is the
  captured baseline applied again, which is skipped only when the capture gave \<open>null\<close>,
  that is when there was no configuration to change. This holds as well when the call
  ends with an exception.
\<close>

theorem generateWithState_restores:
  "fst (generateWithState h state testMessage l) = l \<and>
   chat (fst (generateWithState h state testMessage l)) = chat l \<and>
   serviceSettings (fst (generateWithState h state testMessage l)) =
     map_option (\<lambda>s. \<lparr>ss_prompts = prompts s, ss_prompt_order = promptOrder s\<rparr>)
       (captureCurrentPromptState h l) \<and>
   (captureCurrentPromptState h l = None \<longleftrightarrow> serviceSettings l = None)"
proof -
  obtain l1 shown body where t: "tryBlock h state testMessage l = (l1, shown, body)"
    by (cases "tryBlock h state testMessage l")
  have av: "serviceSettings l1 = None \<longleftrightarrow> serviceSettings l = None"
    using tryBlock_available [of h state testMessage l] t by simp
  have same: "fst (generateWithState h state testMessage l) = l"
  proof (cases "serviceSettings l")
    case None
    then have "captureCurrentPromptState h l = None" by (simp add: capture_None)
    moreover have "serviceSettings l1 = None" using av None by simp
    ultimately show ?thesis
      using None by (simp add: generateWithState_def t Let_def)
  next
    case (Some ss)
    then obtain s where s: "captureCurrentPromptState h l = Some s"
      "prompts s = ss_prompts ss" "promptOrder s = ss_prompt_order ss"
      using capture_fields by blast
    obtain ss1 where ss1: "serviceSettings l1 = Some ss1" using av Some by auto
    have "fst (applyPromptState h (Some s) (l1\<lparr>chat := chat l\<rparr>)) = l"
      using Some ss1 s by (simp add: apply_fst)
    then show ?thesis
      by (cases "applyPromptState h (Some s) (l1\<lparr>chat := chat l\<rparr>)")
         (auto simp: generateWithState_def t s Let_def split: completion.splits)
  qed
  have base: "serviceSettings l =
     map_option (\<lambda>s. \<lparr>ss_prompts = prompts s, ss_prompt_order = promptOrder s\<rparr>)
       (captureCurrentPromptState h l)"
    by (cases "serviceSettings l") (simp_all add: captureCurrentPromptState_def Let_def)
  have transcript: "chat (fst (generateWithState h state testMessage l)) = chat l"
    by (simp only: same)
  have config: "serviceSettings (fst (generateWithState h state testMessage l)) =
     map_option (\<lambda>s. \<lparr>ss_prompts = prompts s, ss_prompt_order = promptOrder s\<rparr>)
       (captureCurrentPromptState h l)"
    by (simp only: same) (rule base)
  show ?thesis
    using same transcript config capture_None [of h l] by blast
qed

text \<open>
  The theorem at a call whose \<open>try\<close> block leaves another configuration and a longer
  transcript behind (\<open>sample_try_state\<close>), and at a call that raises.
\<close>

theorem generateWithState_restores_witness:
  "fst (generateWithState (sampleHost renderOk (Inr None)) (Some sampleB) (Some (js '' hi ''))
     sampleSession) = sampleSession \<and>
   fst (generateWithState (sampleHost renderFails (Inr None)) (Some sampleB) None
     sampleSession) = sampleSession"
  using generateWithState_restores
      [of "sampleHost renderOk (Inr None)" "Some sampleB" "Some (js '' hi '')" sampleSession]
    generateWithState_restores
      [of "sampleHost renderFails (Inr None)" "Some sampleB" None sampleSession]
  by simp

text \<open>
  Claim C2, as the specification states it, does not hold: \<open>generateWithState\<close> can
  raise to its caller. Here \<open>render\<close> throws whenever it is called: the exception of
  the first call, in the \<open>try\<close> block, is caught, the one of the second call, in the
  \<open>finally\<close> block, is not. And a generation rejected with \<open>undefined\<close> makes the
  \<open>catch\<close> block itself throw when it reads the message.
\<close>

theorem generateWithState_raises_counterexample:
  "snd (snd (generateWithState (sampleHost renderFails (Inr (Some (js ''ok''))))
      (Some sampleB) None sampleSession)) = Raised (Thrown (Some (js ''render failed''))) \<and>
   snd (snd (generateWithState (sampleHost renderOk (Inl ThrownNullish))
      (Some sampleB) None sampleSession)) = Raised typeErrorReadingMessage"
  by code_simp

text \<open>
  Claim C2, amended. When the failure of the \<open>try\<close> block, if there is one, is not a
  thrown \<open>null\<close> or \<open>undefined\<close>, and re-rendering the baseline configuration in the
  \<open>finally\<close> block does not throw, \<open>generateWithState\<close> returns: the generated text when
  the \<open>try\<close> block succeeded, and otherwise the string \<open>"Error: "\<close> followed by the
  message of the failure.
\<close>

theorem generateWithState_recovers:
  assumes "snd (snd (tryBlock h state testMessage l)) \<noteq> Raised ThrownNullish"
    and "\<forall>ss. serviceSettings l = Some ss \<longrightarrow> render h ss = None"
  shows "snd (snd (generateWithState h state testMessage l)) =
           (case snd (snd (tryBlock h state testMessage l)) of
              Returned t \<Rightarrow> Returned t
            | Raised e \<Rightarrow> Returned (js ''Error: '' @ messageText e))"
  using assms
  by (auto simp: generateWithState_completion catchBlock_def
           split: option.splits completion.splits js_exn.splits)

text \<open>The theorem at a generation rejected with an error whose message is \<open>boom\<close>.\<close>

theorem generateWithState_recovers_witness:
  "snd (snd (tryBlock (sampleHost renderOk (Inl (Thrown (Some (js ''boom''))))) (Some sampleB) None
      sampleSession)) = Raised (Thrown (Some (js ''boom''))) \<and>
   Raised (Thrown (Some (js ''boom''))) \<noteq> (Raised ThrownNullish :: jsstring completion) \<and>
   render (sampleHost renderOk (Inl (Thrown (Some (js ''boom''))))) sampleSettings = None \<and>
   snd (snd (generateWithState (sampleHost renderOk (Inl (Thrown (Some (js ''boom'')))))
      (Some sampleB) None sampleSession)) = Returned (js ''Error: boom'')"
  using generateWithState_recovers
    [of "sampleHost renderOk (Inl (Thrown (Some (js ''boom''))))" "Some sampleB" None sampleSession]
  by (simp add: sample_rejection sample_render_ok sample_error_text)

end
